theory Spec2Isabelle
  imports Complex_Main
begin

section \<open>Circuits: the data the notebooks build\<close>

text \<open>
  Every notebook builds a circuit by calling gate methods on a \<open>QuantumCircuit\<close> object
  (\<open>qc.h(i)\<close>, \<open>qc.x(i)\<close>, \<open>qc.cx(c, t)\<close>, \<open>qc.cp(theta, c, t)\<close>, \<open>qc.swap(i, j)\<close>)
  and then measures some qubits. A circuit is the number of its qubits, the ordered list of
  the gates appended so far, and the number of leading qubits that are measured (qubit \<open>i\<close>
  into classical bit \<open>i\<close>: the pattern of \<open>measure_all\<close>, of
  \<open>qc.measure(qreg[:n], creg)\<close> and of \<open>qc.measure(0, 0)\<close>).
\<close>

datatype gate =
    HGate nat
  | XGate nat
  | CXGate nat nat
  | CPhaseGate real nat nat
  | SwapGate nat nat

datatype error = ValueError string | CircuitError | ZeroDivisionError

record circuit =
  num_qubits :: nat
  gates :: "gate list"
  measured :: nat

definition QuantumCircuit :: "nat \<Rightarrow> circuit" where
  "QuantumCircuit n = \<lparr>num_qubits = n, gates = [], measured = 0\<rparr>"

text \<open>
  A gate method raises \<open>CircuitError\<close> when a qubit index is outside the register or when
  the same qubit is given twice; otherwise it appends the gate.
\<close>

fun gate_ok :: "nat \<Rightarrow> gate \<Rightarrow> bool" where
  "gate_ok n (HGate i) = (i < n)"
| "gate_ok n (XGate i) = (i < n)"
| "gate_ok n (CXGate c t) = (c < n \<and> t < n \<and> c \<noteq> t)"
| "gate_ok n (CPhaseGate \<theta> c t) = (c < n \<and> t < n \<and> c \<noteq> t)"
| "gate_ok n (SwapGate i j) = (i < n \<and> j < n \<and> i \<noteq> j)"

definition add_gate :: "gate \<Rightarrow> circuit \<Rightarrow> error + circuit" where
  "add_gate g qc =
     (if gate_ok (num_qubits qc) g then Inr (qc\<lparr>gates := gates qc @ [g]\<rparr>)
      else Inl CircuitError)"

fun add_gates :: "gate list \<Rightarrow> circuit \<Rightarrow> error + circuit" where
  "add_gates [] qc = Inr qc"
| "add_gates (g # gs) qc =
     (case add_gate g qc of Inl e \<Rightarrow> Inl e | Inr qc' \<Rightarrow> add_gates gs qc')"

definition measure_all :: "circuit \<Rightarrow> circuit" where
  "measure_all qc = qc\<lparr>measured := num_qubits qc\<rparr>"

section \<open>Simulation on computational-basis states\<close>

text \<open>
  A basis state of an \<open>n\<close>-qubit register is a list of \<open>n\<close> bits, qubit \<open>i\<close> at position
  \<open>i\<close>. The gates X, CX and SWAP permute basis states; H and the controlled phase do not,
  and have no equation here.
\<close>

fun classical_gate :: "gate \<Rightarrow> bool list \<Rightarrow> bool list" where
  "classical_gate (XGate i) b = b[i := \<not> b ! i]"
| "classical_gate (CXGate c t) b = (if b ! c then b[t := \<not> b ! t] else b)"
| "classical_gate (SwapGate i j) b = b[i := b ! j, j := b ! i]"

fun is_classical :: "gate \<Rightarrow> bool" where
  "is_classical (XGate i) = True"
| "is_classical (CXGate c t) = True"
| "is_classical (SwapGate i j) = True"
| "is_classical (HGate i) = False"
| "is_classical (CPhaseGate \<theta> c t) = False"

fun classical_run :: "gate list \<Rightarrow> bool list \<Rightarrow> bool list" where
  "classical_run [] b = b"
| "classical_run (g # gs) b = classical_run gs (classical_gate g b)"

text \<open>
  The key of a counts dictionary shows the highest classical bit first, so it is the
  reversed register. A circuit of permutation gates run from \<open>|0...0>\<close> has one outcome,
  which takes all the shots of the simulator's default (1024).
\<close>

definition bit_char :: "bool \<Rightarrow> char" where
  "bit_char v = (if v then CHR ''1'' else CHR ''0'')"

definition bitstring :: "bool list \<Rightarrow> string" where
  "bitstring b = map bit_char (rev b)"

text \<open>
  A bit string as the register holds it: qubit \<open>i\<close> carries the character \<open>n - 1 - i\<close>,
  and a character other than \<open>'1'\<close> counts as a cleared bit (the notebooks test
  \<open>bit == '1'\<close>).
\<close>

definition register_bits :: "string \<Rightarrow> bool list" where
  "register_bits s = map (\<lambda>c. c = CHR ''1'') (rev s)"

definition default_shots :: nat where
  "default_shots = 1024"

definition get_counts :: "circuit \<Rightarrow> (string \<times> nat) list" where
  "get_counts qc =
     [(bitstring (take (measured qc)
         (classical_run (gates qc) (replicate (num_qubits qc) False))), default_shots)]"

section \<open>Simulation on state vectors\<close>

text \<open>
  A state gives every basis state its amplitude. The gates are the framework's unitaries:
  X, CX and SWAP are self-inverse permutations of the basis states, so the new amplitude of
  \<open>b\<close> is the old amplitude of the permuted \<open>b\<close>; H sends \<open>|v>\<close> to
  \<open>(|0> + (-1)^v |1>) / sqrt 2\<close>; the controlled phase multiplies the amplitude by
  \<open>exp (i * theta)\<close> where both qubits are set. Amplitudes are exact complex numbers.
\<close>

type_synonym state = "bool list \<Rightarrow> complex"

definition ket :: "bool list \<Rightarrow> state" where
  "ket b = (\<lambda>c. if c = b then 1 else 0)"

fun apply_gate :: "gate \<Rightarrow> state \<Rightarrow> state" where
  "apply_gate (XGate i) \<psi> = (\<lambda>b. \<psi> (b[i := \<not> b ! i]))"
| "apply_gate (CXGate c t) \<psi> = (\<lambda>b. \<psi> (if b ! c then b[t := \<not> b ! t] else b))"
| "apply_gate (SwapGate i j) \<psi> = (\<lambda>b. \<psi> (b[i := b ! j, j := b ! i]))"
| "apply_gate (HGate i) \<psi> =
     (\<lambda>b. (\<psi> (b[i := False]) + (if b ! i then - 1 else 1) * \<psi> (b[i := True]))
            / complex_of_real (sqrt 2))"
| "apply_gate (CPhaseGate \<theta> c t) \<psi> =
     (\<lambda>b. (if b ! c \<and> b ! t then cis \<theta> else 1) * \<psi> b)"

fun run :: "gate list \<Rightarrow> state \<Rightarrow> state" where
  "run [] \<psi> = \<psi>"
| "run (g # gs) \<psi> = run gs (apply_gate g \<psi>)"

definition final_state :: "circuit \<Rightarrow> state" where
  "final_state qc = run (gates qc) (ket (replicate (num_qubits qc) False))"

text \<open>
  The probability that one shot shows the key \<open>t\<close>: the squared amplitudes of the basis
  states whose measured (leading) qubits spell \<open>t\<close>, summed over the unmeasured ones.
\<close>

definition outcome_prob :: "circuit \<Rightarrow> string \<Rightarrow> real" where
  "outcome_prob qc t =
     (if length t = measured qc \<and> list_all (\<lambda>c. c = CHR ''0'' \<or> c = CHR ''1'') t
      then (\<Sum>r\<leftarrow>List.n_lists (num_qubits qc - measured qc) [False, True].
              (cmod (final_state qc (register_bits t @ r)))\<^sup>2)
      else 0)"

section \<open>Binary Shift: \<open>create_shift_circuit\<close>\<close>

text \<open>
  The initialisation loop \<open>for i, bit in enumerate(reversed(input_bits))\<close>: an X gate on
  qubit \<open>i\<close> for every character \<open>'1'\<close>.
\<close>

fun init_loop :: "nat \<Rightarrow> string \<Rightarrow> gate list" where
  "init_loop i [] = []"
| "init_loop i (bitc # rest) =
     (if bitc = CHR ''1'' then [XGate i] else []) @ init_loop (Suc i) rest"

definition create_shift_circuit :: "string \<Rightarrow> string \<Rightarrow> error + (string \<times> nat) list" where
  "create_shift_circuit input_bits direction =
     (case add_gates (init_loop 0 (rev input_bits)) (QuantumCircuit 4) of
        Inl e \<Rightarrow> Inl e
      | Inr qc \<Rightarrow>
         (case (if direction = ''right''
                then add_gates [SwapGate 0 1, SwapGate 1 2, SwapGate 2 3] qc
                else if direction = ''left''
                then add_gates [SwapGate 2 3, SwapGate 1 2, SwapGate 0 1] qc
                else Inl (ValueError ''Direction must be 'right' or 'left'.'')) of
            Inl e \<Rightarrow> Inl e
          | Inr qc' \<Rightarrow> Inr (get_counts (measure_all qc'))))"

definition opposite :: "string \<Rightarrow> string" where
  "opposite d = (if d = ''right'' then ''left'' else ''right'')"

section \<open>Bernstein-Vazirani: \<open>create_oracle\<close>\<close>

fun oracle_loop :: "nat \<Rightarrow> nat \<Rightarrow> string \<Rightarrow> gate list" where
  "oracle_loop n i [] = []"
| "oracle_loop n i (bitc # rest) =
     (if bitc = CHR ''1'' then [CXGate i n] else []) @ oracle_loop n (Suc i) rest"

definition create_oracle :: "string \<Rightarrow> error + circuit" where
  "create_oracle secret_string =
     (let n = length secret_string;
          reversed_string = rev secret_string
      in add_gates (oracle_loop n 0 reversed_string) (QuantumCircuit (n + 1)))"

text \<open>
  \<open>popcount (and_bits x s)\<close> counts the positions where both bit vectors are set; the
  secret as the register sees it is \<open>register_bits secret_string\<close>.
\<close>

definition and_bits :: "bool list \<Rightarrow> bool list \<Rightarrow> bool list" where
  "and_bits xs ys = map2 (\<and>) xs ys"

definition popcount :: "bool list \<Rightarrow> nat" where
  "popcount bs = length (filter id bs)"

text \<open>
  A gate method given a list of qubits appends the gate on each of them in turn; given an
  empty list it raises \<open>CircuitError\<close>. This is \<open>qc.h(qreg)\<close> and \<open>qc.h(qreg[:n])\<close>.
\<close>

definition h_qubits :: "nat list \<Rightarrow> circuit \<Rightarrow> error + circuit" where
  "h_qubits qs qc = (if qs = [] then Inl CircuitError else add_gates (map HGate qs) qc)"

text \<open>
  \<open>bernstein_vazirani(oracle)\<close>: with \<open>n = oracle.num_qubits - 1\<close>, an oracle of no
  qubits asks for a classical register of size \<open>-1\<close>, which the framework refuses; an
  oracle of one qubit (the empty secret) has \<open>n = 0\<close>, and the second layer of Hadamards
  is then asked for no qubit at all, which is refused too.
\<close>

definition bernstein_vazirani :: "circuit \<Rightarrow> error + circuit" where
  "bernstein_vazirani oracle =
     (if num_qubits oracle = 0 then Inl CircuitError
      else
        let n = num_qubits oracle - 1;
            qc = QuantumCircuit (n + 1)
        in case add_gate (XGate n) qc of
             Inl e \<Rightarrow> Inl e
           | Inr qc1 \<Rightarrow>
              (case h_qubits [0..<n + 1] qc1 of
                 Inl e \<Rightarrow> Inl e
               | Inr qc2 \<Rightarrow>
                  (case add_gates (gates oracle) qc2 of
                     Inl e \<Rightarrow> Inl e
                   | Inr qc3 \<Rightarrow>
                      (case h_qubits [0..<n] qc3 of
                         Inl e \<Rightarrow> Inl e
                       | Inr qc4 \<Rightarrow> Inr (qc4\<lparr>measured := n\<rparr>)))))"

definition count_cx :: "gate list \<Rightarrow> nat" where
  "count_cx gs = length (filter (\<lambda>g. case g of CXGate c t \<Rightarrow> True | _ \<Rightarrow> False) gs)"

section \<open>QFT: \<open>apply_qft\<close> and \<open>apply_inverse_qft\<close>\<close>

definition qft_swaps :: "nat \<Rightarrow> gate list" where
  "qft_swaps n = map (\<lambda>i. SwapGate i (n - i - 1)) [0..<n div 2]"

definition qft_ladder :: "nat \<Rightarrow> gate list" where
  "qft_ladder n =
     concat (map (\<lambda>i. HGate i # map (\<lambda>j. CPhaseGate (pi / 2 ^ (j - i)) j i) [i + 1..<n]) [0..<n])"

definition inverse_qft_ladder :: "nat \<Rightarrow> gate list" where
  "inverse_qft_ladder n =
     concat (map (\<lambda>i. map (\<lambda>j. CPhaseGate (- pi / 2 ^ (j - i)) j i) (rev [i + 1..<n]) @ [HGate i])
               (rev [0..<n]))"

definition apply_qft :: "circuit \<Rightarrow> nat \<Rightarrow> error + circuit" where
  "apply_qft qc n = add_gates (qft_ladder n @ qft_swaps n) qc"

definition apply_inverse_qft :: "circuit \<Rightarrow> nat \<Rightarrow> error + circuit" where
  "apply_inverse_qft qc n = add_gates (qft_swaps n @ inverse_qft_ladder n) qc"

text \<open>The inverse of each gate, used to compare the two ladders.\<close>

fun inv_gate :: "gate \<Rightarrow> gate" where
  "inv_gate (CPhaseGate \<theta> c t) = CPhaseGate (- \<theta>) c t"
| "inv_gate g = g"

section \<open>BB84: \<open>encode_qubits\<close>, \<open>measure_qubits\<close>, \<open>sift_key\<close>\<close>

fun sift_key :: "int list \<Rightarrow> int list \<Rightarrow> char list \<Rightarrow> char list \<Rightarrow> int list" where
  "sift_key (a_bit # alice_bits) (b_bit # bob_bits) (a_base # alice_bases) (b_base # bob_bases) =
     (if a_base = b_base then 0 else 1) # sift_key alice_bits bob_bits alice_bases bob_bases"
| "sift_key _ _ _ _ = []"

text \<open>
  \<open>encode_qubits\<close> builds one single-qubit circuit per (bit, basis) pair; gates on
  qubit 0 of a one-qubit circuit cannot be refused. \<open>measure_qubits\<close> appends the basis
  change and the measurement to each circuit; what it then reads is the key of the counts,
  whose distribution \<open>outcome_prob\<close> gives.
\<close>

definition encode_gates :: "int \<Rightarrow> char \<Rightarrow> gate list" where
  "encode_gates b basis =
     (if basis = CHR ''X'' then [HGate 0] else [])
     @ (if b = 1 then [XGate 0] else [])
     @ (if basis = CHR ''X'' then [HGate 0] else [])"

fun encode_qubits :: "int list \<Rightarrow> char list \<Rightarrow> circuit list" where
  "encode_qubits (b # bits) (basis # bases) =
     \<lparr>num_qubits = 1, gates = encode_gates b basis, measured = 0\<rparr> # encode_qubits bits bases"
| "encode_qubits _ _ = []"

fun measure_qubits :: "circuit list \<Rightarrow> char list \<Rightarrow> circuit list" where
  "measure_qubits (qc # qubits) (basis # bases) =
     qc\<lparr>gates := gates qc @ (if basis = CHR ''X'' then [HGate 0] else []), measured := 1\<rparr>
       # measure_qubits qubits bases"
| "measure_qubits _ _ = []"

text \<open>
  \<open>int(list(counts.keys())[0])\<close>: the keys are strings of the digits 0 and 1, read as a
  decimal numeral. \<open>key_of_bit\<close> is the key that reads as the bit.
\<close>

definition int_of_key :: "string \<Rightarrow> int" where
  "int_of_key key = foldl (\<lambda>a c. 10 * a + (int (of_char c) - 48)) 0 key"

definition key_of_bit :: "int \<Rightarrow> string" where
  "key_of_bit b = (if b = 1 then ''1'' else ''0'')"

section \<open>QKNN: \<open>estimate_distance\<close>\<close>

text \<open>
  The counts come from the sampled swap test; the function is modelled from the counts on,
  over the real numbers. \<open>counts.get('0', 0) / shots\<close> divides by zero when there are no
  shots.
\<close>

definition distance_of_prob :: "real \<Rightarrow> real" where
  "distance_of_prob prob_0 =
     (let distance_squared = 2 * (1 - prob_0) in sqrt (max 0 distance_squared))"

definition estimate_distance :: "(string \<rightharpoonup> nat) \<Rightarrow> nat \<Rightarrow> error + real" where
  "estimate_distance counts shots =
     (if shots = 0 then Inl ZeroDivisionError
      else Inr (distance_of_prob
                  (real (case counts ''0'' of None \<Rightarrow> 0 | Some k \<Rightarrow> k) / real shots)))"

section \<open>Product states\<close>

text \<open>
  A device of the proofs below: the state in which qubit \<open>i\<close> is, independently of the
  others, in the single-qubit state \<open>fs ! i\<close>. \<open>ketq w\<close> is \<open>|w>\<close>, \<open>hadq w\<close> is
  \<open>H |w>\<close>, and \<open>had1\<close> is H on one qubit. \<open>bv_gates s\<close> names the gate list that
  \<open>bernstein_vazirani\<close> assembles around the oracle of \<open>s\<close>.
\<close>

definition pstate :: "(bool \<Rightarrow> complex) list \<Rightarrow> state" where
  "pstate fs b = (\<Prod>i<length fs. (fs ! i) (b ! i))"

definition ketq :: "bool \<Rightarrow> bool \<Rightarrow> complex" where
  "ketq w v = (if v = w then 1 else 0)"

definition hadq :: "bool \<Rightarrow> bool \<Rightarrow> complex" where
  "hadq w v = (if v \<and> w then - 1 else 1) / complex_of_real (sqrt 2)"

definition had1 :: "(bool \<Rightarrow> complex) \<Rightarrow> bool \<Rightarrow> complex" where
  "had1 f v = (f False + (if v then - 1 else 1) * f True) / complex_of_real (sqrt 2)"

definition bv_gates :: "string \<Rightarrow> gate list" where
  "bv_gates s = [XGate (length s)] @ map HGate [0..<length s + 1]
                 @ oracle_loop (length s) 0 (rev s) @ map HGate [0..<length s]"


section \<open>Building circuits never fails on gates in range\<close>

lemma add_gates_ok:
  "list_all (gate_ok (num_qubits qc)) gs \<Longrightarrow> add_gates gs qc = Inr (qc\<lparr>gates := gates qc @ gs\<rparr>)"
  by (induction gs arbitrary: qc) (simp_all add: add_gate_def)

lemma add_gates_bad:
  "\<not> list_all (gate_ok (num_qubits qc)) gs \<Longrightarrow> add_gates gs qc = Inl CircuitError"
  by (induction gs arbitrary: qc) (auto simp: add_gate_def)


section \<open>Binary Shift\<close>

lemma init_loop_ok:
  "list_all (gate_ok n) (init_loop i cs) \<longleftrightarrow> (\<forall>j < length cs. cs ! j = CHR ''1'' \<longrightarrow> i + j < n)"
proof (induction cs arbitrary: i)
  case Nil
  then show ?case by simp
next
  case (Cons c cs)
  show ?case
    apply (simp add: Cons.IH)
    apply (auto simp: less_Suc_eq_0_disj)
    done
qed

lemma init_loop_ok4:
  "list_all (gate_ok 4) (init_loop 0 cs) \<longleftrightarrow> CHR ''1'' \<notin> set (drop 4 cs)"
proof -
  have "(\<forall>j < length cs. cs ! j = CHR ''1'' \<longrightarrow> j < 4) \<longleftrightarrow> CHR ''1'' \<notin> set (drop 4 cs)"
  proof
    assume h: "\<forall>j < length cs. cs ! j = CHR ''1'' \<longrightarrow> j < 4"
    show "CHR ''1'' \<notin> set (drop 4 cs)"
    proof
      assume "CHR ''1'' \<in> set (drop 4 cs)"
      then obtain k where k: "k < length (drop 4 cs)" "drop 4 cs ! k = CHR ''1''"
        by (auto simp: in_set_conv_nth)
      then have "4 + k < length cs" "cs ! (4 + k) = CHR ''1''" by auto
      with h show False by fastforce
    qed
  next
    assume h: "CHR ''1'' \<notin> set (drop 4 cs)"
    show "\<forall>j < length cs. cs ! j = CHR ''1'' \<longrightarrow> j < 4"
    proof (intro allI impI)
      fix j assume j: "j < length cs" "cs ! j = CHR ''1''"
      show "j < 4"
      proof (rule ccontr)
        assume "\<not> j < 4"
        then have "j - 4 < length (drop 4 cs)" "drop 4 cs ! (j - 4) = CHR ''1''"
          using j by auto
        then have "CHR ''1'' \<in> set (drop 4 cs)" by (metis nth_mem)
        with h show False by simp
      qed
    qed
  qed
  then show ?thesis by (simp add: init_loop_ok)
qed

lemma length4:
  assumes "length (b::'a list) = 4"
  obtains b3 b2 b1 b0 where "b = [b3, b2, b1, b0]"
proof -
  from assms obtain b3 r3 where "b = b3 # r3" "length r3 = 3" by (cases b) auto
  moreover then obtain b2 r2 where "r3 = b2 # r2" "length r2 = 2" by (cases r3) auto
  moreover then obtain b1 r1 where "r2 = b1 # r1" "length r1 = 1" by (cases r2) auto
  moreover then obtain b0 where "r1 = [b0]" by (cases r1) auto
  ultimately show ?thesis using that by simp
qed

lemma shift_eval:
  assumes "b3 \<in> {CHR ''0'', CHR ''1''}" "b2 \<in> {CHR ''0'', CHR ''1''}"
    "b1 \<in> {CHR ''0'', CHR ''1''}" "b0 \<in> {CHR ''0'', CHR ''1''}"
  shows "create_shift_circuit [b3, b2, b1, b0] ''right'' = Inr [([b0, b3, b2, b1], default_shots)]"
    and "create_shift_circuit [b3, b2, b1, b0] ''left'' = Inr [([b2, b1, b0, b3], default_shots)]"
  using assms
  by (auto simp: create_shift_circuit_def QuantumCircuit_def add_gate_def measure_all_def
      get_counts_def bitstring_def bit_char_def numeral_eq_Suc)

text \<open>
  Claim C6. For the input \<open>"1011"\<close>, the counts returned by \<open>create_shift_circuit\<close>
  hold the single key \<open>"1101"\<close> for direction \<open>"right"\<close> (swaps (0,1), (1,2), (2,3)) and
  the single key \<open>"0111"\<close> for direction \<open>"left"\<close> (swaps (2,3), (1,2), (0,1)).
\<close>

theorem create_shift_circuit_1011:
  "create_shift_circuit ''1011'' ''right'' = Inr [(''1101'', 1024)]
   \<and> create_shift_circuit ''1011'' ''left'' = Inr [(''0111'', 1024)]"
  by (simp add: create_shift_circuit_def QuantumCircuit_def add_gate_def measure_all_def
      get_counts_def bitstring_def bit_char_def default_shots_def numeral_eq_Suc)

text \<open>
  Claim C5. For every 4-bit string \<open>b\<close> and each of the two directions, shifting \<open>b\<close> and
  then shifting the measured result in the opposite direction gives \<open>b\<close> back.
\<close>

theorem shift_round_trip:
  assumes "length b = 4" "set b \<subseteq> {CHR ''0'', CHR ''1''}" "d = ''left'' \<or> d = ''right''"
  shows "\<exists>r. create_shift_circuit b d = Inr [(r, default_shots)]
           \<and> create_shift_circuit r (opposite d) = Inr [(b, default_shots)]"
proof -
  from assms(1) obtain b3 b2 b1 b0 where b: "b = [b3, b2, b1, b0]" by (rule length4)
  with assms(2) have m: "b3 \<in> {CHR ''0'', CHR ''1''}" "b2 \<in> {CHR ''0'', CHR ''1''}"
    "b1 \<in> {CHR ''0'', CHR ''1''}" "b0 \<in> {CHR ''0'', CHR ''1''}" by auto
  from assms(3) show ?thesis
  proof
    assume d: "d = ''left''"
    show ?thesis unfolding b d opposite_def
      using shift_eval(2) [OF m] shift_eval(1) [OF m(2) m(3) m(4) m(1)] by simp
  next
    assume d: "d = ''right''"
    show ?thesis unfolding b d opposite_def
      using shift_eval(1) [OF m] shift_eval(2) [OF m(4) m(1) m(2) m(3)] by simp
  qed
qed

theorem shift_round_trip_witness:
  "length ''1011'' = 4 \<and> set ''1011'' \<subseteq> {CHR ''0'', CHR ''1''} \<and> (''right'' = ''left'' \<or> ''right'' = ''right'')
   \<and> (\<exists>r. create_shift_circuit ''1011'' ''right'' = Inr [(r, default_shots)]
          \<and> create_shift_circuit r (opposite ''right'') = Inr [(''1011'', default_shots)])"
  using shift_round_trip [of "''1011''" "''right''"]
  by simp

text \<open>
  Claim C7, as the code has it. The initialisation loop runs before the direction is
  looked at, and an X gate on a qubit beyond the four of the register is refused by the
  circuit itself. So the claim holds for the inputs that fit the register: when no
  character \<open>'1'\<close> stands before the last four characters of the input (every input of
  width at most 4 among them), a direction other than \<open>"right"\<close> and \<open>"left"\<close> raises the
  \<open>ValueError\<close> with its message, and the two directions raise nothing.
\<close>

theorem create_shift_circuit_direction:
  assumes "CHR ''1'' \<notin> set (drop 4 (rev input_bits))"
  shows "(direction \<noteq> ''right'' \<and> direction \<noteq> ''left'' \<longrightarrow>
            create_shift_circuit input_bits direction =
              Inl (ValueError ''Direction must be 'right' or 'left'.''))
       \<and> (direction = ''right'' \<or> direction = ''left'' \<longrightarrow>
            (\<exists>counts. create_shift_circuit input_bits direction = Inr counts))"
proof -
  have ok: "list_all (gate_ok (num_qubits (QuantumCircuit 4))) (init_loop 0 (rev input_bits))"
    using assms by (simp add: init_loop_ok4 QuantumCircuit_def)
  show ?thesis
    unfolding create_shift_circuit_def add_gates_ok [OF ok]
    by (simp add: QuantumCircuit_def add_gate_def)
qed

theorem create_shift_circuit_direction_witness:
  "CHR ''1'' \<notin> set (drop 4 (rev ''1011''))
   \<and> create_shift_circuit ''1011'' ''up'' = Inl (ValueError ''Direction must be 'right' or 'left'.'')
   \<and> (\<exists>counts. create_shift_circuit ''1011'' ''right'' = Inr counts)"
  using create_shift_circuit_direction [of "''1011''" "''up''"] create_shift_circuit_direction [of "''1011''" "''right''"]
  by simp

text \<open>
  The claim C7 as stated, for every input bit string, fails on a five-character input:
  the error is the circuit's, not the \<open>ValueError\<close>, and it is raised for direction
  \<open>"right"\<close> too.
\<close>

theorem create_shift_circuit_direction_counterexample:
  "create_shift_circuit ''10000'' ''up'' = Inl CircuitError
   \<and> create_shift_circuit ''10000'' ''up'' \<noteq> Inl (ValueError ''Direction must be 'right' or 'left'.'')
   \<and> create_shift_circuit ''10000'' ''right'' = Inl CircuitError"
  by (simp add: create_shift_circuit_def QuantumCircuit_def add_gate_def)

text \<open>
  More generally, an input with a \<open>'1'\<close> before its last four characters fails in the
  initialisation loop, whatever the direction.
\<close>

lemma shift_overflow:
  assumes "CHR ''1'' \<in> set (drop 4 (rev input_bits))"
  shows "create_shift_circuit input_bits direction = Inl CircuitError"
proof -
  have bad: "\<not> list_all (gate_ok (num_qubits (QuantumCircuit 4))) (init_loop 0 (rev input_bits))"
    using assms by (simp add: init_loop_ok4 QuantumCircuit_def)
  show ?thesis
    unfolding create_shift_circuit_def add_gates_bad [OF bad] by simp
qed


section \<open>The oracle of Bernstein-Vazirani on basis states\<close>

lemma oracle_loop_ok:
  "i + length cs \<le> n \<Longrightarrow> list_all (gate_ok (Suc n)) (oracle_loop n i cs)"
  by (induction cs arbitrary: i) auto

lemma oracle_loop_shape:
  "i + length cs \<le> n \<Longrightarrow> list_all (\<lambda>g. \<exists>j<n. g = CXGate j n) (oracle_loop n i cs)"
  by (induction cs arbitrary: i) auto

lemma create_oracle_eq:
  "create_oracle s =
     Inr \<lparr>num_qubits = Suc (length s), gates = oracle_loop (length s) 0 (rev s), measured = 0\<rparr>"
proof -
  have "list_all (gate_ok (num_qubits (QuantumCircuit (length s + 1))))
          (oracle_loop (length s) 0 (rev s))"
    using oracle_loop_ok [of 0 "rev s" "length s"] by (simp add: QuantumCircuit_def)
  then show ?thesis
    by (simp add: create_oracle_def Let_def add_gates_ok QuantumCircuit_def)
qed

lemma popcount_Cons: "popcount (and_bits (v # xs) (w # ys)) = (if v \<and> w then 1 else 0) + popcount (and_bits xs ys)"
  by (simp add: popcount_def and_bits_def)

lemma popcount_Nil: "popcount (and_bits xs []) = 0"
  by (simp add: popcount_def and_bits_def)

lemma classical_run_oracle:
  "length b = Suc n \<Longrightarrow> i + length cs \<le> n \<Longrightarrow>
   classical_run (oracle_loop n i cs) b =
     b[n := (b ! n \<noteq> odd (popcount (and_bits (drop i (take n b)) (map (\<lambda>c. c = CHR ''1'') cs))))]"
proof (induction cs arbitrary: i b)
  case Nil
  then show ?case by (simp add: popcount_Nil)
next
  case (Cons c cs)
  from Cons.prems have i: "i < n" and le: "Suc i + length cs \<le> n" by auto
  have dr: "drop i (take n b) = b ! i # drop (Suc i) (take n b)"
    using i Cons.prems(1) by (simp add: Cons_nth_drop_Suc [symmetric])
  show ?case
  proof (cases "c = CHR ''1''")
    case False
    then show ?thesis
      using Cons.IH [OF Cons.prems(1) le] by (simp add: dr popcount_Cons)
  next
    case True
    let ?b1 = "classical_gate (CXGate i n) b"
    have l1: "length ?b1 = Suc n" using Cons.prems(1) by simp
    have t1: "take n ?b1 = take n b" by simp
    have n1: "?b1 ! n = (b ! n \<noteq> b ! i)" using Cons.prems(1) by auto
    have "classical_run (oracle_loop n i (c # cs)) b = classical_run (oracle_loop n (Suc i) cs) ?b1"
      using True by simp
    also have "\<dots> = ?b1[n := (?b1 ! n \<noteq> odd (popcount (and_bits (drop (Suc i) (take n ?b1))
                        (map (\<lambda>c. c = CHR ''1'') cs))))]"
      by (rule Cons.IH [OF l1 le])
    also have "\<dots> = b[n := (?b1 ! n \<noteq> odd (popcount (and_bits (drop (Suc i) (take n b))
                        (map (\<lambda>c. c = CHR ''1'') cs))))]"
      unfolding t1 by simp
    also have "(?b1 ! n \<noteq> odd (popcount (and_bits (drop (Suc i) (take n b))
                        (map (\<lambda>c. c = CHR ''1'') cs)))) =
               (b ! n \<noteq> odd (popcount (and_bits (drop i (take n b))
                        (map (\<lambda>c. c = CHR ''1'') (c # cs)))))"
      unfolding n1 using True by (cases "b ! i") (auto simp: dr popcount_Cons)
    finally show ?thesis .
  qed
qed

text \<open>
  Claim C3. For every secret string \<open>s\<close> and every input \<open>x\<close> of the same width, the oracle
  circuit of \<open>create_oracle s\<close> maps the basis state \<open>(x, a)\<close> to
  \<open>(x, a XOR (popcount (x AND s) mod 2))\<close>: the ancilla receives the mod-2 dot product of
  \<open>x\<close> and \<open>s\<close>. The width need not be bounded by 8.
\<close>

theorem create_oracle_dot_product:
  assumes "length x = length s"
  shows "\<exists>oracle. create_oracle s = Inr oracle \<and>
           classical_run (gates oracle) (x @ [a]) =
             x @ [a \<noteq> odd (popcount (and_bits x (register_bits s)))]"
proof -
  have "classical_run (oracle_loop (length s) 0 (rev s)) (x @ [a]) =
          x @ [a \<noteq> odd (popcount (and_bits x (register_bits s)))]"
  proof -
    have ls: "length s = length x" using assms by simp
    show ?thesis
      using classical_run_oracle [of "x @ [a]" "length x" 0 "rev s"]
      by (simp add: ls register_bits_def)
  qed
  then show ?thesis by (simp add: create_oracle_eq)
qed

theorem create_oracle_dot_product_witness:
  "length [True, False, True] = length ''101'' \<and>
   (\<exists>oracle. create_oracle ''101'' = Inr oracle \<and>
      classical_run (gates oracle) ([True, False, True] @ [False]) = [True, False, True, False])"
  using create_oracle_dot_product [of "[True, False, True]" "''101''" False]
  by (simp add: register_bits_def and_bits_def popcount_def)

text \<open>
  Claim C10. For every secret string \<open>s\<close>, the oracle circuit holds only CX gates from an
  input qubit to the ancilla (qubit \<open>n\<close>), and on every basis state it leaves the \<open>n\<close>
  input qubits as they were.
\<close>

theorem create_oracle_frame:
  assumes "length b = Suc (length s)"
  shows "\<exists>oracle. create_oracle s = Inr oracle
           \<and> list_all (\<lambda>g. \<exists>i<length s. g = CXGate i (length s)) (gates oracle)
           \<and> length (classical_run (gates oracle) b) = length b
           \<and> take (length s) (classical_run (gates oracle) b) = take (length s) b"
  using assms oracle_loop_shape [of 0 "rev s" "length s"]
    classical_run_oracle [of b "length s" 0 "rev s"]
  by (simp add: create_oracle_eq)

theorem create_oracle_frame_witness:
  "length [True, True, False] = Suc (length ''10'') \<and>
   (\<exists>oracle. create_oracle ''10'' = Inr oracle
      \<and> list_all (\<lambda>g. \<exists>i<length ''10''. g = CXGate i (length ''10'')) (gates oracle)
      \<and> take 2 (classical_run (gates oracle) [True, True, False]) = [True, True])"
  using create_oracle_frame [of "[True, True, False]" "''10''"]
  by (simp add: numeral_2_eq_2) blast


section \<open>BB84 sifting\<close>

lemma sift_key_length:
  "length ab = n \<Longrightarrow> length bb = n \<Longrightarrow> length as = n \<Longrightarrow> length bs = n \<Longrightarrow>
   length (sift_key ab bb as bs) = n"
  by (induction ab bb as bs arbitrary: n rule: sift_key.induct) auto

lemma sift_key_nth:
  "length ab = n \<Longrightarrow> length bb = n \<Longrightarrow> length as = n \<Longrightarrow> length bs = n \<Longrightarrow> i < n \<Longrightarrow>
   sift_key ab bb as bs ! i = (if as ! i = bs ! i then 0 else 1)"
proof (induction ab bb as bs arbitrary: n i rule: sift_key.induct)
  case (1 a_bit alice_bits b_bit bob_bits a_base alice_bases b_base bob_bases)
  then show ?case by (cases i) auto
qed auto

text \<open>
  Claim C8. For four sequences of one common length, \<open>sift_key\<close> returns a sequence of
  that length whose element \<open>i\<close> is 0 when the two bases agree at \<open>i\<close> and 1 otherwise;
  so every element is one of the two values.
\<close>

theorem sift_key_flags:
  assumes "length alice_bits = n" "length bob_bits = n" "length alice_bases = n" "length bob_bases = n"
  shows "length (sift_key alice_bits bob_bits alice_bases bob_bases) = n
       \<and> (\<forall>i<n. sift_key alice_bits bob_bits alice_bases bob_bases ! i =
                   (if alice_bases ! i = bob_bases ! i then 0 else 1))
       \<and> set (sift_key alice_bits bob_bits alice_bases bob_bases) \<subseteq> {0, 1}"
proof -
  let ?k = "sift_key alice_bits bob_bits alice_bases bob_bases"
  have len: "length ?k = n" using assms by (rule sift_key_length)
  have nth: "\<forall>i<n. ?k ! i = (if alice_bases ! i = bob_bases ! i then 0 else 1)"
    using assms by (simp add: sift_key_nth)
  have "set ?k \<subseteq> {0, 1}"
  proof
    fix v assume "v \<in> set ?k"
    then obtain i where "i < n" "?k ! i = v" using len by (auto simp: in_set_conv_nth)
    with nth have "v = (if alice_bases ! i = bob_bases ! i then 0 else 1)" by simp
    then show "v \<in> {0, 1}" by (simp split: if_splits)
  qed
  with len nth show ?thesis by simp
qed

theorem sift_key_flags_witness:
  "length [0, 1 :: int] = 2 \<and> length [1, 1 :: int] = 2 \<and> length ''XZ'' = 2 \<and> length ''XX'' = 2
   \<and> sift_key [0, 1] [1, 1] ''XZ'' ''XX'' = [0, 1]"
  using sift_key_flags [of "[0, 1]" 2 "[1, 1]" "''XZ''" "''XX''"]
  by simp


section \<open>State vectors: congruence and inverses\<close>

lemma run_append: "run (gs @ hs) \<psi> = run hs (run gs \<psi>)"
  by (induction gs arbitrary: \<psi>) simp_all

lemma apply_gate_cong:
  assumes "\<And>c. length c = length b \<Longrightarrow> \<psi> c = \<phi> c"
  shows "apply_gate g \<psi> b = apply_gate g \<phi> b"
  by (cases g) (simp_all add: assms)

lemma run_cong:
  assumes "\<And>c. length c = n \<Longrightarrow> \<psi> c = \<phi> c" "length b = n"
  shows "run gs \<psi> b = run gs \<phi> b"
  using assms
proof (induction gs arbitrary: \<psi> \<phi> b)
  case Nil
  then show ?case by simp
next
  case (Cons g gs)
  have "run gs (apply_gate g \<psi>) b = run gs (apply_gate g \<phi>) b"
  proof (rule Cons.IH)
    fix c :: "bool list" assume "length c = n"
    then show "apply_gate g \<psi> c = apply_gate g \<phi> c"
      using Cons.prems(1) by (intro apply_gate_cong) simp
  qed (rule Cons.prems(2))
  then show ?case by simp
qed

lemma sqrt2_sq: "complex_of_real (sqrt 2) * complex_of_real (sqrt 2) = 2"
  by (metis of_real_mult of_real_numeral real_sqrt_mult_self abs_numeral)

lemma hadamard_twice:
  assumes "i < length b"
  shows "apply_gate (HGate i) (apply_gate (HGate i) \<psi>) b = \<psi> b"
proof -
  let ?s = "complex_of_real (sqrt 2)"
  have s: "?s \<noteq> 0" by simp
  have id: "b[i := b ! i] = b" by simp
  show ?thesis
  proof (cases "b ! i")
    case True
    then have "b[i := True] = b" using id by simp
    then show ?thesis using assms True s
      by (simp add: field_simps sqrt2_sq)
  next
    case False
    then have "b[i := False] = b" using id by simp
    then show ?thesis using assms False s
      by (simp add: field_simps sqrt2_sq)
  qed
qed

lemma inv_gate_cancel:
  assumes "gate_ok (length b) g"
  shows "apply_gate (inv_gate g) (apply_gate g \<psi>) b = \<psi> b"
proof (cases g)
  case (HGate i)
  then show ?thesis using assms hadamard_twice by simp
next
  case (XGate i)
  then show ?thesis using assms by simp
next
  case (CXGate c t)
  then show ?thesis using assms by simp
next
  case (CPhaseGate \<theta> c t)
  have "cis (- \<theta>) * cis \<theta> = 1" by (simp add: cis_mult)
  with CPhaseGate show ?thesis using assms by simp
next
  case (SwapGate i j)
  then show ?thesis using assms by (simp add: list_update_swap)
qed

lemma run_inverse:
  assumes "list_all (gate_ok n) gs" "length b = n"
  shows "run (map inv_gate (rev gs)) (run gs \<psi>) b = \<psi> b"
  using assms
proof (induction gs arbitrary: \<psi> b)
  case Nil
  then show ?case by simp
next
  case (Cons g gs)
  let ?\<phi> = "apply_gate g \<psi>"
  have "run (map inv_gate (rev (g # gs))) (run (g # gs) \<psi>) b =
        apply_gate (inv_gate g) (run (map inv_gate (rev gs)) (run gs ?\<phi>)) b"
    by (simp add: run_append)
  also have "\<dots> = apply_gate (inv_gate g) ?\<phi> b"
  proof (rule apply_gate_cong)
    fix c :: "bool list" assume "length c = length b"
    then show "run (map inv_gate (rev gs)) (run gs ?\<phi>) c = ?\<phi> c"
      using Cons.prems by (intro Cons.IH) simp_all
  qed
  also have "\<dots> = \<psi> b"
    using Cons.prems by (intro inv_gate_cancel) simp
  finally show ?case .
qed


subsection \<open>Permutation gates on basis states\<close>

text \<open>
  On a basis state the state-vector semantics of X, CX and SWAP is the classical one, so
  a measured circuit of such gates shows the key of \<open>get_counts\<close> with probability 1;
  this holds of the counts that \<open>create_shift_circuit\<close> returns.
\<close>

lemma apply_gate_classical:
  "is_classical g \<Longrightarrow> apply_gate g \<psi> b = \<psi> (classical_gate g b)"
  by (cases g) simp_all

lemma length_classical_gate:
  "is_classical g \<Longrightarrow> length (classical_gate g b) = length b"
  by (cases g) simp_all

lemma length_classical_run:
  "list_all is_classical gs \<Longrightarrow> length (classical_run gs b) = length b"
  by (induction gs arbitrary: b) (simp_all add: length_classical_gate)

lemma classical_gate_involution:
  assumes "is_classical g" "gate_ok (length b) g"
  shows "classical_gate g (classical_gate g b) = b"
  using assms by (cases g) (simp_all add: list_update_swap)

lemma apply_gate_ket:
  assumes "is_classical g" "gate_ok n g" "length b = n" "length c = n"
  shows "apply_gate g (ket b) c = ket (classical_gate g b) c"
proof -
  have "classical_gate g c = b \<longleftrightarrow> c = classical_gate g b"
    using classical_gate_involution [OF assms(1), of b] classical_gate_involution [OF assms(1), of c]
      assms(2-4) by auto
  then show ?thesis
    by (simp add: apply_gate_classical [OF assms(1)] ket_def)
qed

lemma run_ket:
  assumes "list_all is_classical gs" "list_all (gate_ok n) gs" "length b = n" "length c = n"
  shows "run gs (ket b) c = ket (classical_run gs b) c"
  using assms
proof (induction gs arbitrary: b)
  case Nil
  then show ?case by simp
next
  case (Cons g gs)
  have "run (g # gs) (ket b) c = run gs (apply_gate g (ket b)) c" by simp
  also have "\<dots> = run gs (ket (classical_gate g b)) c"
  proof (rule run_cong [OF _ Cons.prems(4)])
    fix c' :: "bool list" assume "length c' = n"
    then show "apply_gate g (ket b) c' = ket (classical_gate g b) c'"
      using Cons.prems by (intro apply_gate_ket) simp_all
  qed
  also have "\<dots> = ket (classical_run gs (classical_gate g b)) c"
    using Cons.prems by (intro Cons.IH) (simp_all add: length_classical_gate)
  finally show ?case by simp
qed

lemma register_bits_bitstring: "register_bits (bitstring b) = b"
  by (simp add: register_bits_def bitstring_def rev_map comp_def bit_char_def map_idI)

lemma bitstring_bits: "list_all (\<lambda>c. c = CHR ''0'' \<or> c = CHR ''1'') (bitstring b)"
proof -
  have "bit_char v = CHR ''0'' \<or> bit_char v = CHR ''1''" for v
    by (simp add: bit_char_def)
  then show ?thesis by (simp add: bitstring_def list_all_iff)
qed

lemma get_counts_certain:
  assumes "list_all is_classical (gates qc)" "list_all (gate_ok (num_qubits qc)) (gates qc)"
    "measured qc = num_qubits qc" "get_counts qc = [(t, k)]"
  shows "outcome_prob qc t = 1"
proof -
  let ?b = "classical_run (gates qc) (replicate (num_qubits qc) False)"
  have len: "length ?b = num_qubits qc"
    using assms(1) by (simp add: length_classical_run)
  have t: "t = bitstring ?b" using assms(3,4) len by (simp add: get_counts_def)
  have "final_state qc ?b = ket ?b ?b"
    unfolding final_state_def using assms(1,2) len by (intro run_ket) simp_all
  then have "final_state qc (register_bits t @ []) = 1"
    by (simp add: t register_bits_bitstring ket_def)
  then show ?thesis
    using len assms(3) bitstring_bits [of ?b]
    by (simp add: outcome_prob_def t bitstring_def)
qed

lemma shift_counts_certain:
  assumes "create_shift_circuit input_bits direction = Inr [(t, k)]"
  shows "\<exists>qc. num_qubits qc = 4 \<and> measured qc = 4 \<and> get_counts qc = [(t, k)] \<and> outcome_prob qc t = 1"
proof -
  let ?qc0 = "QuantumCircuit 4"
  let ?init = "init_loop 0 (rev input_bits)"
  have cl_init: "list_all is_classical (init_loop i cs)" for i cs
    by (induction cs arbitrary: i) simp_all
  have ok: "list_all (gate_ok 4) ?init"
  proof (rule ccontr)
    assume "\<not> list_all (gate_ok 4) ?init"
    then have "add_gates ?init ?qc0 = Inl CircuitError"
      by (intro add_gates_bad) (simp add: QuantumCircuit_def)
    with assms show False by (simp add: create_shift_circuit_def)
  qed
  then have a0: "add_gates ?init ?qc0 = Inr \<lparr>num_qubits = 4, gates = ?init, measured = 0\<rparr>"
    by (simp add: add_gates_ok QuantumCircuit_def)
  consider "direction = ''right''" | "direction \<noteq> ''right''" "direction = ''left''"
    | "direction \<noteq> ''right''" "direction \<noteq> ''left''" by blast
  then show ?thesis
  proof cases
    case 1
    let ?qc = "\<lparr>num_qubits = 4, gates = ?init @ [SwapGate 0 1, SwapGate 1 2, SwapGate 2 3], measured = 4\<rparr>"
    have g: "get_counts ?qc = [(t, k)]"
      using assms 1 unfolding create_shift_circuit_def a0
      by (simp add: add_gate_def measure_all_def)
    have "outcome_prob ?qc t = 1"
      using g by (intro get_counts_certain [where k = k]) (simp_all add: cl_init ok)
    with g show ?thesis by (intro exI [of _ ?qc]) simp
  next
    case 2
    let ?qc = "\<lparr>num_qubits = 4, gates = ?init @ [SwapGate 2 3, SwapGate 1 2, SwapGate 0 1], measured = 4\<rparr>"
    have g: "get_counts ?qc = [(t, k)]"
      using assms 2 unfolding create_shift_circuit_def a0
      by (simp add: add_gate_def measure_all_def)
    have "outcome_prob ?qc t = 1"
      using g by (intro get_counts_certain [where k = k]) (simp_all add: cl_init ok)
    with g show ?thesis by (intro exI [of _ ?qc]) simp
  next
    case 3
    with assms show ?thesis unfolding create_shift_circuit_def a0 by simp
  qed
qed


section \<open>QFT followed by inverse QFT\<close>

lemma inverse_qft_ladder_eq: "inverse_qft_ladder n = map inv_gate (rev (qft_ladder n))"
  by (simp add: inverse_qft_ladder_def qft_ladder_def rev_concat rev_map map_concat comp_def)

lemma qft_ladder_ok: "list_all (gate_ok n) (qft_ladder n)"
  by (auto simp: qft_ladder_def list_all_iff)

lemma qft_swaps_ok: "list_all (gate_ok n) (qft_swaps n)"
  by (auto simp: qft_swaps_def list_all_iff)

lemma inverse_qft_ladder_ok: "list_all (gate_ok n) (inverse_qft_ladder n)"
  by (auto simp: inverse_qft_ladder_def list_all_iff)

text \<open>
  The swap layer reverses the order of the qubits.
\<close>

lemma run_swaps_upto:
  assumes "2 * k \<le> n" "length b = n"
  shows "run (map (\<lambda>i. SwapGate i (n - i - 1)) [0..<k]) \<psi> b =
         \<psi> (map (\<lambda>j. if j < k \<or> n - k \<le> j then b ! (n - 1 - j) else b ! j) [0..<n])"
  using assms
proof (induction k arbitrary: b)
  case 0
  have "map (\<lambda>j. if j < 0 \<or> n - 0 \<le> j then b ! (n - 1 - j) else b ! j) [0..<n] = map ((!) b) [0..<n]"
    by (rule map_cong) auto
  also have "\<dots> = b" using map_nth [of b] 0 by simp
  finally show ?case by simp
next
  case (Suc k)
  let ?b' = "b[k := b ! (n - k - 1), n - k - 1 := b ! k]"
  have len: "length ?b' = n" using Suc.prems by simp
  have k2: "2 * k \<le> n" using Suc.prems by simp
  have "run (map (\<lambda>i. SwapGate i (n - i - 1)) [0..<Suc k]) \<psi> b =
        run (map (\<lambda>i. SwapGate i (n - i - 1)) [0..<k]) \<psi> ?b'"
    by (simp add: run_append)
  also have "\<dots> = \<psi> (map (\<lambda>j. if j < k \<or> n - k \<le> j then ?b' ! (n - 1 - j) else ?b' ! j) [0..<n])"
    by (rule Suc.IH [OF k2 len])
  also have "map (\<lambda>j. if j < k \<or> n - k \<le> j then ?b' ! (n - 1 - j) else ?b' ! j) [0..<n] =
             map (\<lambda>j. if j < Suc k \<or> n - Suc k \<le> j then b ! (n - 1 - j) else b ! j) [0..<n]"
  proof (rule map_cong [OF refl])
    fix j assume "j \<in> set [0..<n]"
    then have j: "j < n" by simp
    show "(if j < k \<or> n - k \<le> j then ?b' ! (n - 1 - j) else ?b' ! j) =
          (if j < Suc k \<or> n - Suc k \<le> j then b ! (n - 1 - j) else b ! j)"
      using j Suc.prems by (auto simp: nth_list_update)
  qed
  finally show ?case .
qed

lemma run_qft_swaps:
  assumes "length b = n"
  shows "run (qft_swaps n) \<psi> b = \<psi> (rev b)"
proof -
  have "map (\<lambda>j. if j < n div 2 \<or> n - n div 2 \<le> j then b ! (n - 1 - j) else b ! j) [0..<n] = rev b"
  proof (rule nth_equalityI)
    show "length (map (\<lambda>j. if j < n div 2 \<or> n - n div 2 \<le> j then b ! (n - 1 - j) else b ! j) [0..<n]) = length (rev b)"
      using assms by simp
  next
    fix j assume "j < length (map (\<lambda>j. if j < n div 2 \<or> n - n div 2 \<le> j then b ! (n - 1 - j) else b ! j) [0..<n])"
    then have j: "j < n" by simp
    have "\<not> (j < n div 2 \<or> n - n div 2 \<le> j) \<Longrightarrow> n - 1 - j = j" using j by linarith
    then show "map (\<lambda>j. if j < n div 2 \<or> n - n div 2 \<le> j then b ! (n - 1 - j) else b ! j) [0..<n] ! j = rev b ! j"
      using j assms by (auto simp: rev_nth)
  qed
  then show ?thesis
    using run_swaps_upto [of "n div 2" n b \<psi>] assms by (simp add: qft_swaps_def)
qed

lemma qft_then_inverse:
  assumes "length b = n"
  shows "run (qft_ladder n @ qft_swaps n @ qft_swaps n @ inverse_qft_ladder n) \<psi> b = \<psi> b"
proof -
  have "run (qft_ladder n @ qft_swaps n @ qft_swaps n @ inverse_qft_ladder n) \<psi> b =
        run (inverse_qft_ladder n) (run (qft_swaps n) (run (qft_swaps n) (run (qft_ladder n) \<psi>))) b"
    by (simp add: run_append)
  also have "\<dots> = run (inverse_qft_ladder n) (run (qft_ladder n) \<psi>) b"
  proof (rule run_cong [OF _ assms])
    fix c :: "bool list" assume "length c = n"
    then show "run (qft_swaps n) (run (qft_swaps n) (run (qft_ladder n) \<psi>)) c = run (qft_ladder n) \<psi> c"
      by (simp add: run_qft_swaps)
  qed
  also have "\<dots> = \<psi> b"
    unfolding inverse_qft_ladder_eq by (rule run_inverse [OF qft_ladder_ok assms])
  finally show ?thesis .
qed

text \<open>
  Claim C2. For every \<open>n\<close> (so for \<open>n \<le> 8\<close>) and every basis state \<open>b\<close> of \<open>n\<close> qubits,
  the gates of \<open>apply_qft\<close> followed by the gates of \<open>apply_inverse_qft\<close> give back the
  state \<open>|b>\<close>: every amplitude of the result is that of \<open>|b>\<close>, so the identity holds
  with global phase 1.
\<close>

theorem qft_inverse_qft_identity:
  assumes "length b = n" "length c = n"
  shows "\<exists>qc1 qc2. apply_qft (QuantumCircuit n) n = Inr qc1
           \<and> apply_inverse_qft qc1 n = Inr qc2
           \<and> gates qc2 = gates qc1 @ qft_swaps n @ inverse_qft_ladder n
           \<and> run (gates qc2) (ket b) c = ket b c"
proof -
  let ?qc1 = "\<lparr>num_qubits = n, gates = qft_ladder n @ qft_swaps n, measured = 0\<rparr>"
  let ?qc2 = "\<lparr>num_qubits = n,
               gates = (qft_ladder n @ qft_swaps n) @ qft_swaps n @ inverse_qft_ladder n,
               measured = 0\<rparr>"
  have 1: "apply_qft (QuantumCircuit n) n = Inr ?qc1"
    by (simp add: apply_qft_def QuantumCircuit_def add_gates_ok qft_ladder_ok qft_swaps_ok)
  have 2: "apply_inverse_qft ?qc1 n = Inr ?qc2"
    by (simp add: apply_inverse_qft_def add_gates_ok inverse_qft_ladder_ok qft_swaps_ok)
  have 3: "run (gates ?qc2) (ket b) c = ket b c"
    using qft_then_inverse [OF assms(2)] by simp
  show ?thesis using 1 2 3 by simp
qed

theorem qft_inverse_qft_identity_witness:
  "length [True, False, True] = 3 \<and>
   (\<exists>qc1 qc2. apply_qft (QuantumCircuit 3) 3 = Inr qc1
           \<and> apply_inverse_qft qc1 3 = Inr qc2
           \<and> run (gates qc2) (ket [True, False, True]) [True, False, True] = 1
           \<and> run (gates qc2) (ket [True, False, True]) [False, False, True] = 0)"
  using qft_inverse_qft_identity [of "[True, False, True]" 3 "[True, False, True]"]
        qft_inverse_qft_identity [of "[True, False, True]" 3 "[False, False, True]"]
  by (auto simp: ket_def)


section \<open>Bernstein-Vazirani\<close>

lemma had1_ketq: "had1 (ketq w) = hadq w"
  by (rule ext) (simp add: had1_def ketq_def hadq_def)

lemma had1_hadq: "had1 (hadq w) = ketq w"
proof (rule ext)
  fix v
  have "complex_of_real (sqrt 2) \<noteq> 0" by simp
  then show "had1 (hadq w) v = ketq w v"
    by (cases v; cases w) (simp_all add: had1_def ketq_def hadq_def field_simps sqrt2_sq)
qed

lemma pstate_split:
  assumes "i < length fs"
  shows "pstate fs b = (fs ! i) (b ! i) * (\<Prod>j\<in>{..<length fs} - {i}. (fs ! j) (b ! j))"
  unfolding pstate_def using assms by (simp add: prod.remove)

lemma pstate_update:
  assumes "i < length fs" "length b = length fs"
  shows "pstate (fs[i := g]) (b[i := v]) = g v * (\<Prod>j\<in>{..<length fs} - {i}. (fs ! j) (b ! j))"
proof -
  have "pstate (fs[i := g]) (b[i := v]) =
        ((fs[i := g]) ! i) ((b[i := v]) ! i) * (\<Prod>j\<in>{..<length fs} - {i}. ((fs[i := g]) ! j) ((b[i := v]) ! j))"
    using pstate_split [of i "fs[i := g]" "b[i := v]"] assms by simp
  also have "(\<Prod>j\<in>{..<length fs} - {i}. ((fs[i := g]) ! j) ((b[i := v]) ! j)) =
             (\<Prod>j\<in>{..<length fs} - {i}. (fs ! j) (b ! j))"
    by (rule prod.cong) auto
  finally show ?thesis using assms by simp
qed

lemma pstate_update_state:
  assumes "i < length fs" "length b = length fs"
  shows "pstate fs (b[i := v]) = (fs ! i) v * (\<Prod>j\<in>{..<length fs} - {i}. (fs ! j) (b ! j))"
  using pstate_update [OF assms, of "fs ! i" v] by simp

lemma pstate_update_factor:
  assumes "i < length fs" "length b = length fs"
  shows "pstate (fs[i := g]) b = g (b ! i) * (\<Prod>j\<in>{..<length fs} - {i}. (fs ! j) (b ! j))"
  using pstate_update [OF assms, of g "b ! i"] by simp

lemma hadamard_pstate:
  assumes "i < length fs" "length b = length fs"
  shows "apply_gate (HGate i) (pstate fs) b = pstate (fs[i := had1 (fs ! i)]) b"
  by (simp add: pstate_update_state [OF assms] pstate_update_factor [OF assms] had1_def
      algebra_simps add_divide_distrib)

lemma x_pstate:
  assumes "i < length fs" "length b = length fs"
  shows "apply_gate (XGate i) (pstate fs) b = pstate (fs[i := (\<lambda>v. (fs ! i) (\<not> v))]) b"
  by (simp add: pstate_update_state [OF assms] pstate_update_factor [OF assms])

lemma cx_pstate_kickback:
  assumes "c < length fs" "t < length fs" "c \<noteq> t" "length b = length fs"
    and "fs ! t = hadq True"
  shows "apply_gate (CXGate c t) (pstate fs) b =
         pstate (fs[c := (\<lambda>v. (if v then - 1 else 1) * (fs ! c) v)]) b"
proof (cases "b ! c")
  case False
  have "pstate (fs[c := (\<lambda>v. (if v then - 1 else 1) * (fs ! c) v)]) b = pstate fs b"
    using False by (simp add: pstate_update_factor [OF assms(1,4)] pstate_split [OF assms(1)])
  then show ?thesis using False by simp
next
  case True
  have flip: "hadq True (\<not> v) = - hadq True v" for v
    by (simp add: hadq_def)
  have "pstate fs (b[t := \<not> b ! t]) =
        (fs ! t) (\<not> b ! t) * (\<Prod>j\<in>{..<length fs} - {t}. (fs ! j) (b ! j))"
    by (rule pstate_update_state [OF assms(2,4)])
  also have "\<dots> = - ((fs ! t) (b ! t) * (\<Prod>j\<in>{..<length fs} - {t}. (fs ! j) (b ! j)))"
    by (simp add: assms(5) flip)
  also have "\<dots> = - pstate fs b"
    by (simp add: pstate_split [OF assms(2), of b])
  finally have "pstate fs (b[t := \<not> b ! t]) = - pstate fs b" .
  moreover have "pstate (fs[c := (\<lambda>v. (if v then - 1 else 1) * (fs ! c) v)]) b = - pstate fs b"
    using True by (simp add: pstate_update_factor [OF assms(1,4)] pstate_split [OF assms(1)])
  ultimately show ?thesis using True by simp
qed

lemma pstate_ket:
  assumes "length b = length xs"
  shows "pstate (map ketq xs) b = ket xs b"
proof (cases "b = xs")
  case True
  then show ?thesis by (simp add: pstate_def ket_def ketq_def)
next
  case False
  then obtain i where i: "i < length xs" "b ! i \<noteq> xs ! i"
    using assms by (auto simp: list_eq_iff_nth_eq)
  then have "pstate (map ketq xs) b = 0"
    by (simp add: pstate_split [of i] ketq_def)
  then show ?thesis using False by (simp add: ket_def)
qed

lemma pstate_snoc:
  assumes "length x = length fs"
  shows "pstate (fs @ [g]) (x @ [v]) = pstate fs x * g v"
  using assms by (simp add: pstate_def nth_append)

lemma hadamard_layer:
  assumes "k \<le> length fs" "length b = length fs"
  shows "run (map HGate [0..<k]) (pstate fs) b = pstate (map had1 (take k fs) @ drop k fs) b"
  using assms
proof (induction k arbitrary: b)
  case 0
  then show ?case by simp
next
  case (Suc k)
  let ?fk = "map had1 (take k fs) @ drop k fs"
  have k: "k < length fs" using Suc.prems by simp
  have lk: "length ?fk = length fs" using k by simp
  have nk: "?fk ! k = fs ! k" using k by (simp add: nth_append)
  have upd: "?fk[k := had1 (fs ! k)] = map had1 (take (Suc k) fs) @ drop (Suc k) fs"
    using k by (simp add: list_update_append take_Suc_conv_app_nth Cons_nth_drop_Suc [symmetric])
  have "run (map HGate [0..<Suc k]) (pstate fs) b =
        apply_gate (HGate k) (run (map HGate [0..<k]) (pstate fs)) b"
    by (simp add: run_append)
  also have "\<dots> = apply_gate (HGate k) (pstate ?fk) b"
  proof (rule apply_gate_cong)
    fix c :: "bool list" assume "length c = length b"
    then show "run (map HGate [0..<k]) (pstate fs) c = pstate ?fk c"
      using Suc.prems by (intro Suc.IH) simp_all
  qed
  also have "\<dots> = pstate (?fk[k := had1 (?fk ! k)]) b"
    using k Suc.prems lk by (intro hadamard_pstate) simp_all
  also have "\<dots> = pstate (map had1 (take (Suc k) fs) @ drop (Suc k) fs) b"
    unfolding nk upd ..
  finally show ?case .
qed

lemma z_hadq: "(\<lambda>v. (if v then - 1 else 1) * hadq False v) = hadq True"
  by (rule ext) (simp add: hadq_def)

lemma oracle_pstate:
  assumes "length ys = i" "n = i + length cs + length zs" "length b = Suc n"
  shows "run (oracle_loop n i cs)
           (pstate (map hadq (ys @ replicate (length cs) False @ zs) @ [hadq True])) b =
         pstate (map hadq (ys @ map (\<lambda>c. c = CHR ''1'') cs @ zs) @ [hadq True]) b"
  using assms
proof (induction cs arbitrary: i ys b)
  case Nil
  then show ?case by simp
next
  case (Cons c cs)
  let ?F = "map hadq (ys @ replicate (length (c # cs)) False @ zs) @ [hadq True]"
  let ?ys' = "ys @ [c = CHR ''1'']"
  let ?F' = "map hadq (?ys' @ replicate (length cs) False @ zs) @ [hadq True]"
  have lF: "length ?F = Suc n" using Cons.prems by simp
  have i: "i < n" using Cons.prems by simp
  have ly: "length ?ys' = Suc i" using Cons.prems by simp
  have n': "n = Suc i + length cs + length zs" using Cons.prems by simp
  have IH: "run (oracle_loop n (Suc i) cs) (pstate ?F') c' =
            pstate (map hadq (?ys' @ map (\<lambda>c. c = CHR ''1'') cs @ zs) @ [hadq True]) c'"
    if "length c' = Suc n" for c'
    by (rule Cons.IH [OF ly n' that])
  show ?case
  proof (cases "c = CHR ''1''")
    case False
    then show ?thesis using IH [OF Cons.prems(3)] by simp
  next
    case True
    have Fn: "?F ! n = hadq True" using Cons.prems by (simp add: nth_append)
    have Fi: "?F ! i = hadq False" using Cons.prems by (simp add: nth_append)
    have upd: "?F[i := hadq True] = ?F'"
      using Cons.prems True by (simp add: list_update_append)
    have step: "apply_gate (CXGate i n) (pstate ?F) c' = pstate ?F' c'" if "length c' = Suc n" for c'
    proof -
      have "apply_gate (CXGate i n) (pstate ?F) c' =
            pstate (?F[i := (\<lambda>v. (if v then - 1 else 1) * (?F ! i) v)]) c'"
        using i lF that Fn by (intro cx_pstate_kickback) simp_all
      then show ?thesis unfolding Fi z_hadq upd .
    qed
    have "run (oracle_loop n i (c # cs)) (pstate ?F) b =
          run (oracle_loop n (Suc i) cs) (apply_gate (CXGate i n) (pstate ?F)) b"
      using True by simp
    also have "\<dots> = run (oracle_loop n (Suc i) cs) (pstate ?F') b"
      by (rule run_cong [OF step Cons.prems(3)])
    also have "\<dots> = pstate (map hadq (?ys' @ map (\<lambda>c. c = CHR ''1'') cs @ zs) @ [hadq True]) b"
      by (rule IH [OF Cons.prems(3)])
    finally show ?thesis by simp
  qed
qed

lemma bv_final_state:
  assumes "length b = Suc (length s)"
  shows "run (bv_gates s) (ket (replicate (Suc (length s)) False)) b =
         pstate (map ketq (register_bits s) @ [hadq True]) b"
proof -
  let ?n = "length s"
  let ?F0 = "map ketq (replicate (Suc ?n) False)"
  let ?F1 = "map ketq (replicate ?n False @ [True])"
  let ?F2 = "map hadq (replicate ?n False) @ [hadq True]"
  let ?F3 = "map hadq (register_bits s) @ [hadq True]"
  let ?F4 = "map ketq (register_bits s) @ [hadq True]"
  let ?\<psi>0 = "ket (replicate (Suc ?n) False)"
  let ?\<psi>1 = "apply_gate (XGate ?n) ?\<psi>0"
  let ?\<psi>2 = "run (map HGate [0..<Suc ?n]) ?\<psi>1"
  let ?\<psi>3 = "run (oracle_loop ?n 0 (rev s)) ?\<psi>2"
  let ?\<psi>4 = "run (map HGate [0..<?n]) ?\<psi>3"
  have s0: "?\<psi>0 c = pstate ?F0 c" if "length c = Suc ?n" for c
    using pstate_ket [of c "replicate (Suc ?n) False"] that by simp
  have s1: "?\<psi>1 c = pstate ?F1 c" if "length c = Suc ?n" for c
  proof -
    have "?\<psi>1 c = apply_gate (XGate ?n) (pstate ?F0) c"
      by (rule apply_gate_cong, rule s0) (simp add: that)
    also have "\<dots> = pstate (?F0[?n := (\<lambda>v. (?F0 ! ?n) (\<not> v))]) c"
      using that by (intro x_pstate) simp_all
    also have "?F0[?n := (\<lambda>v. (?F0 ! ?n) (\<not> v))] = ?F1"
    proof -
      have "(\<lambda>v. ketq False (\<not> v)) = ketq True" by (rule ext) (simp add: ketq_def)
      moreover have "?F0 = map ketq (replicate ?n False) @ [ketq False]"
        by (simp add: replicate_append_same)
      ultimately show ?thesis by (simp add: nth_append list_update_append)
    qed
    finally show ?thesis .
  qed
  have s2: "?\<psi>2 c = pstate ?F2 c" if "length c = Suc ?n" for c
  proof -
    have "?\<psi>2 c = run (map HGate [0..<Suc ?n]) (pstate ?F1) c"
      by (rule run_cong [OF s1 that])
    also have "\<dots> = pstate (map had1 (take (Suc ?n) ?F1) @ drop (Suc ?n) ?F1) c"
      using that by (intro hadamard_layer) simp_all
    also have "map had1 (take (Suc ?n) ?F1) @ drop (Suc ?n) ?F1 = ?F2"
      by (simp add: had1_ketq)
    finally show ?thesis .
  qed
  have s3: "?\<psi>3 c = pstate ?F3 c" if "length c = Suc ?n" for c
  proof -
    have "?\<psi>3 c = run (oracle_loop ?n 0 (rev s)) (pstate ?F2) c"
      by (rule run_cong [OF s2 that])
    also have "\<dots> = pstate ?F3 c"
      using oracle_pstate [of "[]" 0 ?n "rev s" "[]" c] that
      by (simp add: register_bits_def)
    finally show ?thesis .
  qed
  have s4: "?\<psi>4 c = pstate ?F4 c" if "length c = Suc ?n" for c
  proof -
    have "?\<psi>4 c = run (map HGate [0..<?n]) (pstate ?F3) c"
      by (rule run_cong [OF s3 that])
    also have "\<dots> = pstate (map had1 (take ?n ?F3) @ drop ?n ?F3) c"
      using that by (intro hadamard_layer) (simp_all add: register_bits_def)
    also have "map had1 (take ?n ?F3) @ drop ?n ?F3 = ?F4"
      by (simp add: register_bits_def had1_hadq)
    finally show ?thesis .
  qed
  have "run (bv_gates s) ?\<psi>0 b = ?\<psi>4 b"
    by (simp add: bv_gates_def run_append)
  then show ?thesis using s4 [OF assms] by simp
qed

lemma bv_gates_ok: "list_all (gate_ok (Suc (length s))) (bv_gates s)"
  using oracle_loop_ok [of 0 "rev s" "length s"]
  by (auto simp: bv_gates_def list_all_iff)

lemma bernstein_vazirani_eq:
  assumes "s \<noteq> []"
  shows "bernstein_vazirani \<lparr>num_qubits = Suc (length s), gates = oracle_loop (length s) 0 (rev s), measured = 0\<rparr>
     = Inr \<lparr>num_qubits = Suc (length s), gates = bv_gates s, measured = length s\<rparr>"
proof -
  let ?n = "length s"
  let ?qc1 = "\<lparr>num_qubits = Suc ?n, gates = [XGate ?n], measured = 0\<rparr>"
  let ?qc2 = "\<lparr>num_qubits = Suc ?n, gates = [XGate ?n] @ map HGate [0..<Suc ?n], measured = 0\<rparr>"
  let ?qc3 = "\<lparr>num_qubits = Suc ?n,
               gates = ([XGate ?n] @ map HGate [0..<Suc ?n]) @ oracle_loop ?n 0 (rev s),
               measured = 0\<rparr>"
  let ?qc4 = "\<lparr>num_qubits = Suc ?n,
               gates = (([XGate ?n] @ map HGate [0..<Suc ?n]) @ oracle_loop ?n 0 (rev s))
                       @ map HGate [0..<?n],
               measured = 0\<rparr>"
  have 1: "add_gate (XGate ?n) (QuantumCircuit (Suc ?n)) = Inr ?qc1"
    by (simp add: add_gate_def QuantumCircuit_def)
  have "list_all (gate_ok (num_qubits ?qc1)) (map HGate [0..<Suc ?n])"
    by (simp add: list_all_iff del: upt_Suc)
  then have "add_gates (map HGate [0..<Suc ?n]) ?qc1 = Inr ?qc2"
    by (simp add: add_gates_ok del: upt_Suc)
  moreover have "[0..<Suc ?n] \<noteq> []" by simp
  ultimately have 2: "h_qubits [0..<Suc ?n] ?qc1 = Inr ?qc2"
    unfolding h_qubits_def by (simp only: if_False)
  have "list_all (gate_ok (num_qubits ?qc2)) (oracle_loop ?n 0 (rev s))"
    using oracle_loop_ok [of 0 "rev s" ?n] by simp
  then have 3: "add_gates (oracle_loop ?n 0 (rev s)) ?qc2 = Inr ?qc3"
    by (simp add: add_gates_ok del: upt_Suc)
  have "list_all (gate_ok (num_qubits ?qc3)) (map HGate [0..<?n])"
    by (simp add: list_all_iff)
  then have "add_gates (map HGate [0..<?n]) ?qc3 = Inr ?qc4"
    by (simp add: add_gates_ok del: upt_Suc)
  moreover have "[0..<?n] \<noteq> []" using assms by simp
  ultimately have 4: "h_qubits [0..<?n] ?qc3 = Inr ?qc4"
    unfolding h_qubits_def by (simp only: if_False)
  have g: "(([XGate ?n] @ map HGate [0..<Suc ?n]) @ oracle_loop ?n 0 (rev s)) @ map HGate [0..<?n]
           = bv_gates s"
    by (simp add: bv_gates_def del: upt_Suc)
  have "bernstein_vazirani \<lparr>num_qubits = Suc ?n, gates = oracle_loop ?n 0 (rev s), measured = 0\<rparr>
        = Inr (?qc4\<lparr>measured := ?n\<rparr>)"
    unfolding bernstein_vazirani_def Let_def
    by (simp add: 1 2 3 4 del: upt_Suc append.simps append_assoc)
  then show ?thesis
    unfolding g by simp
qed


lemma count_cx_bv: "count_cx (bv_gates s) = count_cx (oracle_loop (length s) 0 (rev s))"
  by (simp add: bv_gates_def count_cx_def filter_map comp_def)

lemma length_register_bits: "length (register_bits t) = length t"
  by (simp add: register_bits_def)

lemma n_lists_one: "List.n_lists (Suc 0) [False, True] = [[False], [True]]"
  by simp

lemma hadq_norm: "(cmod (hadq True v))\<^sup>2 = 1 / 2"
  by (simp add: hadq_def norm_divide power_divide)

lemma bit_char_eq:
  assumes "x = CHR ''0'' \<or> x = CHR ''1''" "y = CHR ''0'' \<or> y = CHR ''1''"
    "(x = CHR ''1'') = (y = CHR ''1'')"
  shows "x = y"
  using assms by blast

lemma bit_map_inj:
  assumes "list_all (\<lambda>c. c = CHR ''0'' \<or> c = CHR ''1'') xs"
    "list_all (\<lambda>c. c = CHR ''0'' \<or> c = CHR ''1'') ys"
    "map (\<lambda>c. c = CHR ''1'') xs = map (\<lambda>c. c = CHR ''1'') ys"
  shows "xs = ys"
  using assms
proof (induction xs arbitrary: ys)
  case Nil
  then show ?case by simp
next
  case (Cons x xs)
  then obtain y ys' where ys: "ys = y # ys'" by (cases ys) auto
  from Cons.prems ys have "x = y" by (intro bit_char_eq) simp_all
  moreover from Cons.prems ys have "xs = ys'" by (intro Cons.IH) simp_all
  ultimately show ?case using ys by simp
qed

lemma register_bits_inj:
  assumes "list_all (\<lambda>c. c = CHR ''0'' \<or> c = CHR ''1'') s"
    "list_all (\<lambda>c. c = CHR ''0'' \<or> c = CHR ''1'') t"
    "register_bits t = register_bits s"
  shows "t = s"
proof -
  have "rev t = rev s"
    using assms by (intro bit_map_inj) (simp_all add: register_bits_def)
  then show ?thesis by simp
qed

lemma bv_outcome:
  assumes "list_all (\<lambda>c. c = CHR ''0'' \<or> c = CHR ''1'') s"
  shows "outcome_prob \<lparr>num_qubits = Suc (length s), gates = bv_gates s, measured = length s\<rparr> t
           = (if t = s then 1 else 0)"
proof (cases "length t = length s \<and> list_all (\<lambda>c. c = CHR ''0'' \<or> c = CHR ''1'') t")
  case False
  have "t \<noteq> s" using False assms by blast
  moreover have "outcome_prob \<lparr>num_qubits = Suc (length s), gates = bv_gates s, measured = length s\<rparr> t = 0"
    unfolding outcome_prob_def using False by (subst if_not_P) simp_all
  ultimately show ?thesis by simp
next
  case True
  let ?qc = "\<lparr>num_qubits = Suc (length s), gates = bv_gates s, measured = length s\<rparr>"
  have amp: "final_state ?qc (register_bits t @ [v]) = ket (register_bits s) (register_bits t) * hadq True v" for v
  proof -
    have "final_state ?qc (register_bits t @ [v]) =
          pstate (map ketq (register_bits s) @ [hadq True]) (register_bits t @ [v])"
      using True bv_final_state [of "register_bits t @ [v]" s]
      by (simp add: final_state_def length_register_bits)
    also have "\<dots> = pstate (map ketq (register_bits s)) (register_bits t) * hadq True v"
      using True by (intro pstate_snoc) (simp add: length_register_bits)
    also have "pstate (map ketq (register_bits s)) (register_bits t) = ket (register_bits s) (register_bits t)"
      using True by (intro pstate_ket) (simp add: length_register_bits)
    finally show ?thesis .
  qed
  have "outcome_prob ?qc t = (cmod (final_state ?qc (register_bits t @ [False])))\<^sup>2
                            + (cmod (final_state ?qc (register_bits t @ [True])))\<^sup>2"
    using True by (simp add: outcome_prob_def)
  also have "\<dots> = (if register_bits t = register_bits s then 1 else 0)"
    by (simp add: amp ket_def hadq_norm norm_mult power_mult_distrib)
  also have "\<dots> = (if t = s then 1 else 0)"
  proof -
    have "register_bits t = register_bits s \<longleftrightarrow> t = s"
      using register_bits_inj [OF assms, of t] True by blast
    then show ?thesis by simp
  qed
  finally show ?thesis .
qed

text \<open>
  Claim C1, as the code has it. For every non-empty secret bit string \<open>s\<close>, the circuit
  \<open>bernstein_vazirani (create_oracle s)\<close> is built without error and its measurement shows
  the key \<open>s\<close> with probability 1, every other key with probability 0. The circuit holds
  the oracle once: its CX gates are those of the oracle. The width need not be bounded
  by 8.
\<close>

theorem bernstein_vazirani_recovers_secret:
  assumes "list_all (\<lambda>c. c = CHR ''0'' \<or> c = CHR ''1'') s" "s \<noteq> []"
  shows "\<exists>oracle qc. create_oracle s = Inr oracle \<and> bernstein_vazirani oracle = Inr qc
           \<and> outcome_prob qc s = 1 \<and> (\<forall>t. t \<noteq> s \<longrightarrow> outcome_prob qc t = 0)
           \<and> count_cx (gates qc) = count_cx (gates oracle)"
proof -
  let ?orc = "\<lparr>num_qubits = Suc (length s), gates = oracle_loop (length s) 0 (rev s), measured = 0\<rparr>"
  let ?qc = "\<lparr>num_qubits = Suc (length s), gates = bv_gates s, measured = length s\<rparr>"
  have 1: "outcome_prob ?qc s = 1"
    using bv_outcome [OF assms(1), of s] by simp
  have 2: "\<forall>t. t \<noteq> s \<longrightarrow> outcome_prob ?qc t = 0"
    using bv_outcome [OF assms(1)] by simp
  have 3: "count_cx (gates ?qc) = count_cx (gates ?orc)"
    by (simp add: count_cx_bv)
  show ?thesis
    using create_oracle_eq [of s] bernstein_vazirani_eq [OF assms(2)] 1 2 3 by blast
qed

theorem bernstein_vazirani_recovers_secret_witness:
  "list_all (\<lambda>c. c = CHR ''0'' \<or> c = CHR ''1'') ''101'' \<and> ''101'' \<noteq> []
   \<and> (\<exists>oracle qc. create_oracle ''101'' = Inr oracle \<and> bernstein_vazirani oracle = Inr qc
           \<and> outcome_prob qc ''101'' = 1 \<and> outcome_prob qc ''100'' = 0)"
proof -
  have a: "list_all (\<lambda>c. c = CHR ''0'' \<or> c = CHR ''1'') ''101''" by simp
  have b: "''101'' \<noteq> []" by simp
  from bernstein_vazirani_recovers_secret [OF a b] obtain orc qc where
    1: "create_oracle ''101'' = Inr orc" "bernstein_vazirani orc = Inr qc"
       "outcome_prob qc ''101'' = 1"
    and 2: "\<forall>t. t \<noteq> ''101'' \<longrightarrow> outcome_prob qc t = 0"
    by blast
  from 2 have "outcome_prob qc ''100'' = 0" by simp
  with a b 1 show ?thesis by blast
qed

text \<open>
  The claim C1 as stated, for every secret bit string, fails on the empty secret: the
  oracle is built, with one qubit and no gate, and \<open>bernstein_vazirani\<close> raises on it at
  \<open>qc.h(qreg[:n])\<close> with \<open>n = 0\<close>, so nothing is measured.
\<close>

theorem bernstein_vazirani_empty_secret_counterexample:
  "create_oracle [] = Inr \<lparr>num_qubits = 1, gates = [], measured = 0\<rparr>
   \<and> bernstein_vazirani \<lparr>num_qubits = 1, gates = [], measured = 0\<rparr> = Inl CircuitError"
  by (simp add: create_oracle_def QuantumCircuit_def bernstein_vazirani_def Let_def
      add_gate_def h_qubits_def)


section \<open>BB84 in the Z basis\<close>

lemma z_round_trip_one:
  assumes "b = 0 \<or> b = 1"
  shows "outcome_prob \<lparr>num_qubits = 1, gates = encode_gates b (CHR ''Z'') @ [], measured = 1\<rparr>
           (key_of_bit b) = 1"
  using assms
  by (auto simp: outcome_prob_def final_state_def encode_gates_def key_of_bit_def
      register_bits_def ket_def)

lemma int_of_key_of_bit: "b = 0 \<or> b = 1 \<Longrightarrow> int_of_key (key_of_bit b) = b"
  by (auto simp: int_of_key_def key_of_bit_def)

text \<open>
  Claim C9. For bits in \<open>{0, 1}\<close> encoded in the basis \<open>'Z'\<close> and measured in the basis
  \<open>'Z'\<close>, each circuit that \<open>measure_qubits\<close> runs shows with probability 1 a key
  that reads as the encoded bit.
\<close>

theorem bb84_z_basis_round_trip:
  assumes "set bits \<subseteq> {0, 1}"
  shows "list_all2 (\<lambda>qc b. \<exists>key. outcome_prob qc key = 1 \<and> int_of_key key = b)
           (measure_qubits (encode_qubits bits (replicate (length bits) (CHR ''Z'')))
              (replicate (length bits) (CHR ''Z'')))
           bits"
  using assms
proof (induction bits)
  case Nil
  then show ?case by simp
next
  case (Cons b bits)
  then have "b = 0 \<or> b = 1" by auto
  then have "outcome_prob \<lparr>num_qubits = 1, gates = encode_gates b (CHR ''Z'') @ [], measured = 1\<rparr>
               (key_of_bit b) = 1 \<and> int_of_key (key_of_bit b) = b"
    using z_round_trip_one [of b] int_of_key_of_bit [of b] by simp
  then have "\<exists>key. outcome_prob \<lparr>num_qubits = 1, gates = encode_gates b (CHR ''Z'') @ [], measured = 1\<rparr> key = 1
                 \<and> int_of_key key = b" by blast
  then show ?case using Cons by simp
qed

theorem bb84_z_basis_round_trip_witness:
  "set [1, 0 :: int] \<subseteq> {0, 1} \<and>
   (\<exists>qc1 qc0. measure_qubits (encode_qubits [1, 0] ''ZZ'') ''ZZ'' = [qc1, qc0]
       \<and> (\<exists>key. outcome_prob qc1 key = 1 \<and> int_of_key key = 1)
       \<and> (\<exists>key. outcome_prob qc0 key = 1 \<and> int_of_key key = 0))"
  using bb84_z_basis_round_trip [of "[1, 0]"]
  by simp


section \<open>The swap-test distance\<close>

text \<open>
  Claim C4. With at least one shot, \<open>estimate_distance\<close> is \<open>sqrt (max 0 (2 * (1 - p)))\<close>
  of the sampled probability \<open>p\<close> of the outcome \<open>'0'\<close>; this function of \<open>p\<close> is 0 at
  \<open>p = 1\<close>, \<open>sqrt 2\<close> at \<open>p = 0\<close>, and does not increase as \<open>p\<close> grows within
  \<open>[0, 1]\<close>.
\<close>

theorem estimate_distance_contract:
  assumes "0 \<le> p" "p \<le> q" "q \<le> 1" "0 < shots"
  shows "estimate_distance counts shots =
           Inr (distance_of_prob (real (case counts ''0'' of None \<Rightarrow> 0 | Some k \<Rightarrow> k) / real shots))
       \<and> distance_of_prob p = sqrt (max 0 (2 * (1 - p)))
       \<and> distance_of_prob 1 = 0
       \<and> distance_of_prob 0 = sqrt 2
       \<and> distance_of_prob q \<le> distance_of_prob p"
  using assms by (simp add: distance_of_prob_def Let_def estimate_distance_def)

theorem estimate_distance_contract_witness:
  "(0::real) \<le> 0 \<and> (0::real) \<le> 1 \<and> (1::real) \<le> 1 \<and> (0::nat) < 4
   \<and> estimate_distance [''0'' \<mapsto> 4] 4 = Inr 0
   \<and> distance_of_prob 1 \<le> distance_of_prob 0"
  using estimate_distance_contract [of 0 1 4 "[''0'' \<mapsto> 4]"]
  by simp


end
